theory Spec2Isabelle
  imports Main "HOL-Library.Multiset"
begin

section \<open>Password generator: Password\_Generator/passGenerator.py\<close>

text \<open>
  The verified core is \<^verbatim>\<open>build_character_pool\<close> and \<^verbatim>\<open>generate_password\<close>.
  Python strings are modelled as \<open>string\<close>; every character the program handles is
  ASCII, so one character is one \<open>char\<close>. The requested length is a Python integer,
  modelled as \<open>int\<close>. Exceptions are values of a sum type, \<open>Inl\<close> carrying the error.
\<close>

subsection \<open>Character classes of the standard library and the symbol literal\<close>

definition ascii_lowercase :: string where
  "ascii_lowercase = ''abcdefghijklmnopqrstuvwxyz''"

definition ascii_uppercase :: string where
  "ascii_uppercase = ''ABCDEFGHIJKLMNOPQRSTUVWXYZ''"

definition digits :: string where
  "digits = ''0123456789''"

text \<open>
  The literal written at lines 52 and 79 (the same text at both places). Its Python
  escape \<^verbatim>\<open>\\\<close> denotes one backslash, character code 0x5C.
\<close>

definition symbol_chars :: string where
  "symbol_chars = ''!@#$%^&*()-_=+[]{};:,.?/'' @ [CHR 0x5C] @ ''|''"

subsection \<open>Errors\<close>

text \<open>
  The program raises \<^verbatim>\<open>ValueError\<close> with a message; \<^verbatim>\<open>secrets.choice\<close> raises
  \<^verbatim>\<open>IndexError\<close> on an empty sequence.
\<close>

datatype error = ValueError string | IndexError

text \<open>The two messages of \<^verbatim>\<open>generate_password\<close>, named after the error kinds they report.\<close>

definition InvalidLength :: error where
  "InvalidLength = ValueError ''Password length must be positive.''"

definition NoCategorySelected :: error where
  "NoCategorySelected = ValueError ''At least one character category must be selected.''"

subsection \<open>The randomness source\<close>

text \<open>
  The operating system's entropy is an infinite tape of natural numbers, threaded through
  every draw. \<^verbatim>\<open>randbelow n\<close> of the standard library returns an index below \<open>n\<close> for
  \<open>n > 0\<close>: here the head of the tape reduced modulo \<open>n\<close>, so that every index below
  \<open>n\<close> is the outcome for some tape. The program never calls it with \<open>n = 0\<close>.
\<close>

type_synonym rng = "nat \<Rightarrow> nat"

definition randbelow :: "rng \<Rightarrow> nat \<Rightarrow> nat \<times> rng" where
  "randbelow r n = (r 0 mod n, \<lambda>i. r (Suc i))"

text \<open>\<^verbatim>\<open>secrets.choice(seq)\<close>: \<^verbatim>\<open>seq[randbelow(len(seq))]\<close>, IndexError when \<^verbatim>\<open>seq\<close> is empty.\<close>

definition choice :: "rng \<Rightarrow> 'a list \<Rightarrow> error + ('a \<times> rng)" where
  "choice r seq =
     (if seq = [] then Inl IndexError
      else (case randbelow r (length seq) of (j, r') \<Rightarrow> Inr (seq ! j, r')))"

text \<open>
  \<^verbatim>\<open>random.shuffle(x)\<close>:
  \<^verbatim>\<open>for i in reversed(range(1, len(x))): j = randbelow(i + 1); x[i], x[j] = x[j], x[i]\<close>.
  The first argument of \<open>shuffle_loop\<close> counts the remaining iterations, which is also the
  current index \<open>i\<close>.
\<close>

fun shuffle_loop :: "nat \<Rightarrow> rng \<Rightarrow> 'a list \<Rightarrow> 'a list \<times> rng" where
  "shuffle_loop 0 r xs = (xs, r)"
| "shuffle_loop (Suc k) r xs =
     (case randbelow r (Suc k + 1) of
        (j, r') \<Rightarrow> shuffle_loop k r' (xs[Suc k := xs ! j, j := xs ! Suc k]))"

definition shuffle :: "rng \<Rightarrow> 'a list \<Rightarrow> 'a list \<times> rng" where
  "shuffle r xs = shuffle_loop (length xs - 1) r xs"

subsection \<open>build\_character\_pool (lines 41 to 54)\<close>

definition build_character_pool :: "bool \<Rightarrow> bool \<Rightarrow> bool \<Rightarrow> bool \<Rightarrow> string" where
  "build_character_pool include_lower include_upper include_digits include_symbols =
     (let pool_parts = [];
          pool_parts = (if include_lower then pool_parts @ [ascii_lowercase] else pool_parts);
          pool_parts = (if include_upper then pool_parts @ [ascii_uppercase] else pool_parts);
          pool_parts = (if include_digits then pool_parts @ [digits] else pool_parts);
          pool_parts = (if include_symbols then pool_parts @ [symbol_chars] else pool_parts)
      in concat pool_parts)"

subsection \<open>generate\_password (lines 57 to 87)\<close>

text \<open>The statement \<^verbatim>\<open>password_chars.append(secrets.choice(seq))\<close>.\<close>

definition append_choice :: "string \<Rightarrow> string \<times> rng \<Rightarrow> error + (string \<times> rng)" where
  "append_choice seq st =
     (case st of (password_chars, r) \<Rightarrow>
        (case choice r seq of
           Inl e \<Rightarrow> Inl e
         | Inr (c, r') \<Rightarrow> Inr (password_chars @ [c], r')))"

text \<open>Lines 69 to 79: one character of each chosen category, from the category's own string.\<close>

definition guarantee_chars :: "rng \<Rightarrow> bool \<Rightarrow> bool \<Rightarrow> bool \<Rightarrow> bool \<Rightarrow> error + (string \<times> rng)" where
  "guarantee_chars r include_lower include_upper include_digits include_symbols =
     (case (if include_lower then append_choice ascii_lowercase ([], r) else Inr ([], r)) of
        Inl e \<Rightarrow> Inl e
      | Inr st1 \<Rightarrow>
     (case (if include_upper then append_choice ascii_uppercase st1 else Inr st1) of
        Inl e \<Rightarrow> Inl e
      | Inr st2 \<Rightarrow>
     (case (if include_digits then append_choice digits st2 else Inr st2) of
        Inl e \<Rightarrow> Inl e
      | Inr st3 \<Rightarrow>
     (if include_symbols then append_choice symbol_chars st3 else Inr st3))))"

text \<open>Lines 82 and 83: \<^verbatim>\<open>while len(password_chars) < length: ...append(secrets.choice(pool))\<close>.\<close>

function fill_rest :: "string \<Rightarrow> int \<Rightarrow> string \<times> rng \<Rightarrow> error + (string \<times> rng)" where
  "fill_rest pool len (password_chars, r) =
     (if int (length password_chars) < len
      then (case choice r pool of
              Inl e \<Rightarrow> Inl e
            | Inr (c, r') \<Rightarrow> fill_rest pool len (password_chars @ [c], r'))
      else Inr (password_chars, r))"
  by pat_completeness auto
termination
  by (relation "measure (\<lambda>(pool, len, password_chars, r). nat (len - int (length password_chars)))")
     auto

definition generate_password :: "rng \<Rightarrow> int \<Rightarrow> bool \<Rightarrow> bool \<Rightarrow> bool \<Rightarrow> bool \<Rightarrow> error + string" where
  "generate_password r len include_lower include_upper include_digits include_symbols =
     (if len \<le> 0 then Inl (ValueError ''Password length must be positive.'')
      else
        (let pool = build_character_pool include_lower include_upper include_digits include_symbols
         in if pool = [] then Inl (ValueError ''At least one character category must be selected.'')
            else
              (case guarantee_chars r include_lower include_upper include_digits include_symbols of
                 Inl e \<Rightarrow> Inl e
               | Inr st \<Rightarrow>
              (case fill_rest pool len st of
                 Inl e \<Rightarrow> Inl e
               | Inr (password_chars, r') \<Rightarrow>
                   Inr (take (nat len) (fst (shuffle r' password_chars)))))))"

subsection \<open>Vocabulary of the specification\<close>

datatype category = Lowercase | Uppercase | Digit | Symbol

fun category_pool :: "category \<Rightarrow> string" where
  "category_pool Lowercase = ascii_lowercase"
| "category_pool Uppercase = ascii_uppercase"
| "category_pool Digit = digits"
| "category_pool Symbol = symbol_chars"

text \<open>Which categories the four flags of a call enable, and how many.\<close>

fun enabled :: "bool \<Rightarrow> bool \<Rightarrow> bool \<Rightarrow> bool \<Rightarrow> category \<Rightarrow> bool" where
  "enabled l u d s Lowercase = l"
| "enabled l u d s Uppercase = u"
| "enabled l u d s Digit = d"
| "enabled l u d s Symbol = s"

definition num_enabled :: "bool \<Rightarrow> bool \<Rightarrow> bool \<Rightarrow> bool \<Rightarrow> nat" where
  "num_enabled l u d s = length (filter (enabled l u d s) [Lowercase, Uppercase, Digit, Symbol])"

text \<open>
  The pool as the specification words it: the pools of the enabled categories, concatenated
  in the order Lowercase, Uppercase, Digit, Symbol.
\<close>

definition spec_build_pool :: "bool \<Rightarrow> bool \<Rightarrow> bool \<Rightarrow> bool \<Rightarrow> string" where
  "spec_build_pool l u d s =
     concat (map category_pool (filter (enabled l u d s) [Lowercase, Uppercase, Digit, Symbol]))"

text \<open>A tape for concrete runs: every draw yields index 0.\<close>

definition zero_tape :: rng where
  "zero_tape = (\<lambda>i. 0)"

text \<open>A tape for concrete runs: the \<open>i\<close>-th draw yields \<open>i\<close> (reduced by the bound).\<close>

definition count_tape :: rng where
  "count_tape = (\<lambda>i. i)"

subsection \<open>Draw vectors of the shuffle\<close>



section \<open>Auxiliary facts\<close>

subsection \<open>Draws, the guarantee step, the fill loop and the shuffle\<close>

lemma pools_nonempty:
  "ascii_lowercase \<noteq> []" "ascii_uppercase \<noteq> []" "digits \<noteq> []" "symbol_chars \<noteq> []"
  by (simp_all add: ascii_lowercase_def ascii_uppercase_def digits_def symbol_chars_def)

lemma choice_Inr:
  assumes "seq \<noteq> []"
  shows "\<exists>c r'. choice r seq = Inr (c, r') \<and> c \<in> set seq"
proof -
  have "r 0 mod length seq < length seq"
    using assms by simp
  then show ?thesis
    using assms by (simp add: choice_def randbelow_def)
qed

lemma append_choice_Inr:
  assumes "seq \<noteq> []"
  shows "\<exists>c r'. append_choice seq (cs, r) = Inr (cs @ [c], r') \<and> c \<in> set seq"
proof -
  obtain c r' where "choice r seq = Inr (c, r')" "c \<in> set seq"
    using choice_Inr [OF assms] by blast
  then show ?thesis
    by (simp add: append_choice_def)
qed

text \<open>One guarded guarantee step: the buffer grows by one character of the category, or stays.\<close>

lemma guarantee_step:
  assumes "seq \<noteq> []"
  shows "\<exists>x r'. (if b then append_choice seq (cs, r) else Inr (cs, r))
                  = Inr (cs @ (if b then [x] else []), r') \<and> x \<in> set seq"
proof (cases b)
  case True
  then show ?thesis using append_choice_Inr [OF assms, of cs r] by auto
next
  case False
  obtain x where "x \<in> set seq" using assms by (cases seq) auto
  with False show ?thesis by auto
qed

lemma guarantee_chars_shape:
  "\<exists>c1 c2 c3 c4 r'.
     guarantee_chars r l u d s =
       Inr ((if l then [c1] else []) @ (if u then [c2] else []) @
            (if d then [c3] else []) @ (if s then [c4] else []), r')
     \<and> c1 \<in> set ascii_lowercase \<and> c2 \<in> set ascii_uppercase
     \<and> c3 \<in> set digits \<and> c4 \<in> set symbol_chars"
proof -
  obtain c1 r1 where s1:
    "(if l then append_choice ascii_lowercase ([], r) else Inr ([], r))
       = Inr ([] @ (if l then [c1] else []), r1)" "c1 \<in> set ascii_lowercase"
    using guarantee_step [OF pools_nonempty(1), of l "[]" r] by blast
  obtain c2 r2 where s2:
    "(if u then append_choice ascii_uppercase ([] @ (if l then [c1] else []), r1)
      else Inr ([] @ (if l then [c1] else []), r1))
       = Inr (([] @ (if l then [c1] else [])) @ (if u then [c2] else []), r2)"
    "c2 \<in> set ascii_uppercase"
    using guarantee_step [OF pools_nonempty(2), of u _ r1] by blast
  obtain c3 r3 where s3:
    "(if d then append_choice digits (([] @ (if l then [c1] else [])) @ (if u then [c2] else []), r2)
      else Inr (([] @ (if l then [c1] else [])) @ (if u then [c2] else []), r2))
       = Inr ((([] @ (if l then [c1] else [])) @ (if u then [c2] else [])) @ (if d then [c3] else []), r3)"
    "c3 \<in> set digits"
    using guarantee_step [OF pools_nonempty(3), of d _ r2] by blast
  obtain c4 r4 where s4:
    "(if s then append_choice symbol_chars ((([] @ (if l then [c1] else [])) @ (if u then [c2] else [])) @ (if d then [c3] else []), r3)
      else Inr ((([] @ (if l then [c1] else [])) @ (if u then [c2] else [])) @ (if d then [c3] else []), r3))
       = Inr (((([] @ (if l then [c1] else [])) @ (if u then [c2] else [])) @ (if d then [c3] else [])) @ (if s then [c4] else []), r4)"
    "c4 \<in> set symbol_chars"
    using guarantee_step [OF pools_nonempty(4), of s _ r3] by blast
  have "guarantee_chars r l u d s =
       Inr (((([] @ (if l then [c1] else [])) @ (if u then [c2] else [])) @ (if d then [c3] else [])) @ (if s then [c4] else []), r4)"
    unfolding guarantee_chars_def s1(1) sum.case s2(1) s3(1) s4(1) ..
  then have "guarantee_chars r l u d s =
       Inr ((if l then [c1] else []) @ (if u then [c2] else []) @
            (if d then [c3] else []) @ (if s then [c4] else []), r4)"
    by simp
  with s1(2) s2(2) s3(2) s4(2) show ?thesis by blast
qed

lemma fill_rest_Inr:
  "pool \<noteq> [] \<Longrightarrow>
   \<exists>ys r'. fill_rest pool len (cs, r) = Inr (cs @ ys, r')
           \<and> set ys \<subseteq> set pool
           \<and> int (length (cs @ ys)) = max len (int (length cs))"
proof (induction pool len "(cs, r)" arbitrary: cs r rule: fill_rest.induct)
  case (1 pool len cs r)
  show ?case
  proof (cases "int (length cs) < len")
    case False
    then show ?thesis by simp
  next
    case True
    have ne: "pool \<noteq> []" using "1.prems" .
    obtain c r1 where c: "choice r pool = Inr (c, r1)" "c \<in> set pool"
      using choice_Inr [OF ne] by blast
    obtain ys r' where ih: "fill_rest pool len (cs @ [c], r1) = Inr ((cs @ [c]) @ ys, r')"
      "set ys \<subseteq> set pool" "int (length ((cs @ [c]) @ ys)) = max len (int (length (cs @ [c])))"
      using "1.hyps" [OF True c(1) refl ne] by blast
    have "fill_rest pool len (cs, r) = Inr (cs @ (c # ys), r')"
      using True c(1) ih(1) by simp
    moreover have "set (c # ys) \<subseteq> set pool" using c(2) ih(2) by simp
    moreover have "int (length (cs @ (c # ys))) = max len (int (length cs))"
      using ih(3) True by simp
    ultimately show ?thesis by blast
  qed
qed

lemma shuffle_loop_mset:
  "k < length xs \<Longrightarrow> mset (fst (shuffle_loop k r xs)) = mset xs"
proof (induction k arbitrary: r xs)
  case 0
  then show ?case by simp
next
  case (Suc k)
  let ?j = "r 0 mod (Suc k + 1)"
  let ?xs' = "xs[Suc k := xs ! ?j, ?j := xs ! Suc k]"
  have "?j < Suc k + 1" by (rule mod_less_divisor) simp
  then have j: "?j < length xs" using Suc.prems by linarith
  have "mset ?xs' = mset xs"
    using mset_swap [OF j Suc.prems] .
  moreover have "k < length ?xs'" using Suc.prems by simp
  ultimately show ?case
    using Suc.IH [of ?xs' "\<lambda>i. r (Suc i)"] by (simp add: randbelow_def)
qed

lemma shuffle_mset: "mset (fst (shuffle r xs)) = mset xs"
proof (cases xs)
  case Nil
  then show ?thesis by (simp add: shuffle_def)
next
  case (Cons a list)
  then show ?thesis
    unfolding shuffle_def by (intro shuffle_loop_mset) simp
qed

subsection \<open>The pool and the categories\<close>

lemma build_pool_unfold:
  "build_character_pool l u d s =
     (if l then ascii_lowercase else []) @ (if u then ascii_uppercase else []) @
     (if d then digits else []) @ (if s then symbol_chars else [])"
  by (simp add: build_character_pool_def)

lemma build_pool_empty_iff:
  "build_character_pool l u d s = [] \<longleftrightarrow> \<not> l \<and> \<not> u \<and> \<not> d \<and> \<not> s"
  using pools_nonempty by (simp add: build_pool_unfold)

lemma in_pool_category:
  "c \<in> set (build_character_pool l u d s) \<Longrightarrow>
   \<exists>cat. enabled l u d s cat \<and> c \<in> set (category_pool cat)"
proof -
  assume "c \<in> set (build_character_pool l u d s)"
  then have "(l \<and> c \<in> set ascii_lowercase) \<or> (u \<and> c \<in> set ascii_uppercase)
      \<or> (d \<and> c \<in> set digits) \<or> (s \<and> c \<in> set symbol_chars)"
    by (auto simp: build_pool_unfold split: if_splits)
  then show ?thesis
    by (metis enabled.simps category_pool.simps)
qed

lemma category_pools_disjoint:
  "cat \<noteq> cat' \<Longrightarrow> set (category_pool cat) \<inter> set (category_pool cat') = {}"
  by (cases cat; cases cat')
     (simp_all add: ascii_lowercase_def ascii_uppercase_def digits_def symbol_chars_def)

lemma num_enabled_card: "num_enabled l u d s = card {cat. enabled l u d s cat}"
proof -
  have "{cat. enabled l u d s cat} = set (filter (enabled l u d s) [Lowercase, Uppercase, Digit, Symbol])"
  proof -
    have "cat \<in> set [Lowercase, Uppercase, Digit, Symbol]" for cat
      by (cases cat) simp_all
    then have "UNIV = set [Lowercase, Uppercase, Digit, Symbol]" by blast
    then have "{cat. enabled l u d s cat} = {cat \<in> set [Lowercase, Uppercase, Digit, Symbol]. enabled l u d s cat}"
      by (simp only: UNIV_I simp_thms)
    then show ?thesis by (simp only: set_filter)
  qed
  moreover have "distinct (filter (enabled l u d s) [Lowercase, Uppercase, Digit, Symbol])"
    by (rule distinct_filter) simp
  ultimately show ?thesis
    by (simp only: num_enabled_def distinct_card)
qed

lemma guarantee_chars_props:
  "\<exists>buf r1. guarantee_chars r l u d s = Inr (buf, r1)
     \<and> length buf = num_enabled l u d s
     \<and> (\<forall>cat. enabled l u d s cat \<longrightarrow> (\<exists>c\<in>set buf. c \<in> set (category_pool cat)))
     \<and> set buf \<subseteq> set (build_character_pool l u d s)"
proof -
  obtain c1 c2 c3 c4 r1 where g: "guarantee_chars r l u d s =
       Inr ((if l then [c1] else []) @ (if u then [c2] else []) @
            (if d then [c3] else []) @ (if s then [c4] else []), r1)"
    and c: "c1 \<in> set ascii_lowercase" "c2 \<in> set ascii_uppercase"
           "c3 \<in> set digits" "c4 \<in> set symbol_chars"
    using guarantee_chars_shape by blast
  let ?buf = "(if l then [c1] else []) @ (if u then [c2] else []) @
            (if d then [c3] else []) @ (if s then [c4] else [])"
  have len: "length ?buf = num_enabled l u d s"
    by (simp add: num_enabled_def)
  have cov: "\<exists>x\<in>set ?buf. x \<in> set (category_pool cat)" if "enabled l u d s cat" for cat
    using that c by (cases cat) auto
  have sub: "set ?buf \<subseteq> set (build_character_pool l u d s)"
    using c by (auto simp: build_pool_unfold)
  from g len cov sub show ?thesis by blast
qed

lemma generate_password_run:
  assumes "0 < len" "l \<or> u \<or> d \<or> s"
  shows "\<exists>buf ys r1 r2.
     guarantee_chars r l u d s = Inr (buf, r1)
   \<and> length buf = num_enabled l u d s
   \<and> (\<forall>cat. enabled l u d s cat \<longrightarrow> (\<exists>c\<in>set buf. c \<in> set (category_pool cat)))
   \<and> set (buf @ ys) \<subseteq> set (build_character_pool l u d s)
   \<and> int (length (buf @ ys)) = max len (int (length buf))
   \<and> generate_password r len l u d s = Inr (take (nat len) (fst (shuffle r2 (buf @ ys))))"
proof -
  let ?pool = "build_character_pool l u d s"
  have ne: "?pool \<noteq> []" using assms(2) by (simp add: build_pool_empty_iff)
  obtain buf r1 where g: "guarantee_chars r l u d s = Inr (buf, r1)"
    "length buf = num_enabled l u d s"
    "\<forall>cat. enabled l u d s cat \<longrightarrow> (\<exists>c\<in>set buf. c \<in> set (category_pool cat))"
    "set buf \<subseteq> set ?pool"
    using guarantee_chars_props by blast
  obtain ys r2 where f: "fill_rest ?pool len (buf, r1) = Inr (buf @ ys, r2)"
    "set ys \<subseteq> set ?pool" "int (length (buf @ ys)) = max len (int (length buf))"
    using fill_rest_Inr [OF ne] by blast
  have "generate_password r len l u d s = Inr (take (nat len) (fst (shuffle r2 (buf @ ys))))"
    using assms(1) ne g(1) f(1) by (simp add: generate_password_def)
  moreover have "set (buf @ ys) \<subseteq> set ?pool" using g(4) f(2) by simp
  ultimately show ?thesis using g(1,2,3) f(3) by blast
qed

lemma shuffle_length: "length (fst (shuffle r xs)) = length xs"
  using shuffle_mset [of r xs] by (metis size_mset)

lemma shuffle_set: "set (fst (shuffle r xs)) = set xs"
  using shuffle_mset [of r xs] by (metis set_mset_mset)

lemma generate_password_nonpositive:
  "len \<le> 0 \<Longrightarrow> generate_password r len l u d s = Inl InvalidLength"
  by (simp add: generate_password_def InvalidLength_def)

lemma generate_password_no_category:
  "0 < len \<Longrightarrow> build_character_pool l u d s = [] \<Longrightarrow>
   generate_password r len l u d s = Inl NoCategorySelected"
  by (simp add: generate_password_def NoCategorySelected_def)

text \<open>What a run returns, for a positive length and a non-empty selection.\<close>

lemma generate_password_result:
  assumes "0 < len" "l \<or> u \<or> d \<or> s"
  shows "\<exists>pw. generate_password r len l u d s = Inr pw \<and> int (length pw) = len
           \<and> set pw \<subseteq> set (build_character_pool l u d s)"
proof -
  obtain buf ys r1 r2 where
    sub: "set (buf @ ys) \<subseteq> set (build_character_pool l u d s)"
    and len: "int (length (buf @ ys)) = max len (int (length buf))"
    and res: "generate_password r len l u d s = Inr (take (nat len) (fst (shuffle r2 (buf @ ys))))"
    using generate_password_run [OF assms, of r] by blast
  let ?pw = "take (nat len) (fst (shuffle r2 (buf @ ys)))"
  have "nat len \<le> length (buf @ ys)" using len by linarith
  then have "int (length ?pw) = len"
    using assms(1) by (simp add: shuffle_length)
  moreover have "set ?pw \<subseteq> set (build_character_pool l u d s)"
  proof -
    have "set ?pw \<subseteq> set (fst (shuffle r2 (buf @ ys)))" by (rule set_take_subset)
    also have "\<dots> = set (buf @ ys)" by (rule shuffle_set)
    finally show ?thesis using sub by blast
  qed
  ultimately show ?thesis using res by blast
qed

lemma some_enabled: "0 < num_enabled l u d s \<Longrightarrow> l \<or> u \<or> d \<or> s"
  by (cases l; cases u; cases d; cases s) (simp_all add: num_enabled_def)

text \<open>Pigeonhole: the category pools are disjoint, so fewer characters than enabled
  categories leave some enabled category without a character.\<close>

lemma short_password_misses_category:
  assumes "length pw < num_enabled l u d s"
  shows "\<exists>cat. enabled l u d s cat \<and> set pw \<inter> set (category_pool cat) = {}"
proof (rule ccontr)
  let ?E = "{cat. enabled l u d s cat}"
  assume "\<not> ?thesis"
  then have "\<forall>cat\<in>?E. \<exists>c. c \<in> set pw \<and> c \<in> set (category_pool cat)"
    by blast
  then obtain f where f: "\<forall>cat\<in>?E. f cat \<in> set pw \<and> f cat \<in> set (category_pool cat)"
    using bchoice [of ?E "\<lambda>cat c. c \<in> set pw \<and> c \<in> set (category_pool cat)"] by blast
  have "inj_on f ?E"
  proof (rule inj_onI)
    fix a b
    assume ab: "a \<in> ?E" "b \<in> ?E" "f a = f b"
    show "a = b"
    proof (rule ccontr)
      assume "a \<noteq> b"
      then have "set (category_pool a) \<inter> set (category_pool b) = {}"
        by (rule category_pools_disjoint)
      moreover have "f a \<in> set (category_pool a)" "f a \<in> set (category_pool b)"
        using f ab by auto
      ultimately show False by blast
    qed
  qed
  moreover have "f ` ?E \<subseteq> set pw" using f by blast
  ultimately have "card ?E \<le> card (set pw)"
    by (intro card_inj_on_le) simp_all
  also have "\<dots> \<le> length pw" by (rule card_length)
  finally show False
    using assms by (simp add: num_enabled_card)
qed

subsection \<open>The shuffle as a one-to-one map from draw vectors to orderings\<close>




lemma shuffle_loop_length: "length (fst (shuffle_loop k r xs)) = length xs"
  by (induction k arbitrary: r xs) (simp_all add: randbelow_def)













section \<open>The claims\<close>

text \<open>
  C5. For every length below 1 and every selection, the empty one included,
  \<open>generate_password\<close> raises the error whose message is
  ``Password length must be positive.'' (InvalidLength) and returns no password.
  The instance \<open>generate(0, {Lowercase})\<close> is part of the witness.
\<close>

theorem C5_invalid_length:
  "len < 1 \<Longrightarrow> generate_password r len l u d s = Inl InvalidLength"
  by (rule generate_password_nonpositive) simp

theorem C5_invalid_length_witness:
  "(0::int) < 1 \<and> generate_password count_tape 0 True False False False = Inl InvalidLength
   \<and> (-3::int) < 1 \<and> generate_password zero_tape (-3) False False False False = Inl InvalidLength"
  using C5_invalid_length [of 0 count_tape True False False False]
        C5_invalid_length [of "-3" zero_tape False False False False]
  by simp

text \<open>
  C6. For every length of at least 1 and the empty selection, \<open>generate_password\<close>
  raises the error whose message is ``At least one character category must be
  selected.'' (NoCategorySelected) and returns no password. The instance
  \<open>generate(5, {})\<close> is the witness.
\<close>

theorem C6_no_category_selected:
  "1 \<le> len \<Longrightarrow> generate_password r len False False False False = Inl NoCategorySelected"
  by (rule generate_password_no_category) (simp_all add: build_pool_empty_iff)

theorem C6_no_category_selected_witness:
  "(1::int) \<le> 5 \<and> generate_password count_tape 5 False False False False = Inl NoCategorySelected"
  using C6_no_category_selected [of 5 count_tape] by simp

text \<open>
  C7, as stated: \<open>build_character_pool\<close> itself fails when no category is enabled.
  It does not: with all four flags off it returns the empty string.
\<close>

theorem C7_build_pool_returns_empty_counterexample:
  "build_character_pool False False False False = []"
  by (simp add: build_character_pool_def)

text \<open>
  C7, amended: \<open>build_character_pool\<close> never fails. It returns the empty pool exactly
  when no category is enabled, and it is its caller \<open>generate_password\<close> that, given a
  length of at least 1, raises NoCategorySelected on the empty pool.
\<close>

theorem C7_build_pool_total:
  "(build_character_pool l u d s = [] \<longleftrightarrow> \<not> l \<and> \<not> u \<and> \<not> d \<and> \<not> s)
   \<and> (1 \<le> len \<and> build_character_pool l u d s = []
        \<longrightarrow> generate_password r len l u d s = Inl NoCategorySelected)"
  using build_pool_empty_iff [of l u d s] generate_password_no_category [of len l u d s r]
  by simp

theorem C7_build_pool_total_witness:
  "build_character_pool False False False False = []
   \<and> generate_password zero_tape 1 False False False False = Inl NoCategorySelected"
  using C7_build_pool_total [of False False False False 1 zero_tape] by simp

text \<open>
  C8. For every selection, \<open>build_character_pool\<close> returns the pools of the enabled
  categories concatenated in the order Lowercase, Uppercase, Digit, Symbol, each pool in its
  own order, and the Symbol pool is the 26-character list \<^verbatim>\<open>!@#$%^&*()-_=+[]{};:,.?/\|\<close>
  (character 0x5C is the backslash).
\<close>

theorem C8_build_pool_concatenation:
  "build_character_pool l u d s = spec_build_pool l u d s
   \<and> category_pool Symbol =
       [CHR ''!'', CHR ''@'', CHR ''#'', CHR ''$'', CHR ''%'', CHR ''^'', CHR ''&'', CHR ''*'',
        CHR ''('', CHR '')'', CHR ''-'', CHR ''_'', CHR ''='', CHR ''+'', CHR ''['', CHR '']'',
        CHR ''{'', CHR ''}'', CHR '';'', CHR '':'', CHR '','', CHR ''.'', CHR ''?'', CHR ''/'',
        CHR 0x5C, CHR ''|'']
   \<and> length (category_pool Symbol) = 26"
  by (simp add: build_character_pool_def spec_build_pool_def symbol_chars_def)

text \<open>
  C1. The specification asks for the error LengthTooShortForCategories when the length is at
  least 1 and smaller than the number of enabled categories. The program has no such check:
  at \<open>generate(2, {Lowercase, Uppercase, Digit})\<close>, on the tape whose every draw is 0, it
  returns the two characters \<open>A0\<close>. They hold no lowercase letter although Lowercase is
  enabled, against the function's own docstring (``Ensures at least one character from each
  selected category is present'') and the comment of line 71.
\<close>

theorem C1_short_length_failing_input:
  "(1::int) \<le> 2 \<and> 2 < int (num_enabled True True True False)
   \<and> generate_password zero_tape 2 True True True False = Inr ''A0''
   \<and> enabled True True True False Lowercase
   \<and> set ''A0'' \<inter> set (category_pool Lowercase) = {}"
proof -
  have "generate_password zero_tape 2 True True True False = Inr ''A0''" by code_simp
  moreover have "set ''A0'' \<inter> set (category_pool Lowercase) = {}"
    by (simp add: ascii_lowercase_def)
  ultimately show ?thesis by (simp add: num_enabled_def)
qed

text \<open>
  C2. For every valid input (length at least 1, some category enabled, length at least the
  number of enabled categories), \<open>generate_password\<close> returns a string of exactly
  \<open>len\<close> characters, whatever the randomness source yields.
\<close>

theorem C2_length_invariant:
  assumes "1 \<le> len" "l \<or> u \<or> d \<or> s" "int (num_enabled l u d s) \<le> len"
  shows "\<exists>pw. generate_password r len l u d s = Inr pw \<and> int (length pw) = len"
proof -
  have "0 < len" using assms(1) by simp
  then show ?thesis using generate_password_result [OF _ assms(2), of len r] by blast
qed

theorem C2_length_invariant_witness:
  "(1::int) \<le> 12 \<and> int (num_enabled True True True True) \<le> 12
   \<and> (\<exists>pw. generate_password count_tape 12 True True True True = Inr pw \<and> int (length pw) = 12)"
  using C2_length_invariant [of 12 True True True True count_tape]
  by (simp add: num_enabled_def)

text \<open>
  C3. For every valid input, the string returned by \<open>generate_password\<close> contains, for
  every enabled category, at least one character of that category's own pool.
\<close>

theorem C3_category_coverage:
  assumes "1 \<le> len" "l \<or> u \<or> d \<or> s" "int (num_enabled l u d s) \<le> len"
  shows "\<exists>pw. generate_password r len l u d s = Inr pw
           \<and> (\<forall>cat. enabled l u d s cat \<longrightarrow> (\<exists>c\<in>set pw. c \<in> set (category_pool cat)))"
proof -
  have pos: "0 < len" using assms(1) by simp
  obtain buf ys r1 r2 where
    n: "length buf = num_enabled l u d s"
    and cov: "\<forall>cat. enabled l u d s cat \<longrightarrow> (\<exists>c\<in>set buf. c \<in> set (category_pool cat))"
    and len: "int (length (buf @ ys)) = max len (int (length buf))"
    and res: "generate_password r len l u d s = Inr (take (nat len) (fst (shuffle r2 (buf @ ys))))"
    using generate_password_run [OF pos assms(2), of r] by blast
  let ?sh = "fst (shuffle r2 (buf @ ys))"
  have "length ?sh = nat len"
    using len n assms(3) by (simp add: shuffle_length)
  then have "take (nat len) ?sh = ?sh" by simp
  then have "set (take (nat len) ?sh) = set buf \<union> set ys"
    by (simp add: shuffle_set)
  with cov have "\<forall>cat. enabled l u d s cat \<longrightarrow>
      (\<exists>c\<in>set (take (nat len) ?sh). c \<in> set (category_pool cat))"
    by blast
  with res show ?thesis by blast
qed

theorem C3_category_coverage_witness:
  "(1::int) \<le> 4 \<and> int (num_enabled True True True True) \<le> 4
   \<and> (\<exists>pw. generate_password count_tape 4 True True True True = Inr pw
           \<and> (\<forall>cat. enabled True True True True cat \<longrightarrow> (\<exists>c\<in>set pw. c \<in> set (category_pool cat))))"
  using C3_category_coverage [of 4 True True True True count_tape]
  by (simp add: num_enabled_def)

text \<open>
  C4. For every valid input, every character of the string returned by
  \<open>generate_password\<close> belongs to the pool of some enabled category, and no character of a
  disabled category's pool occurs in it.
\<close>

theorem C4_closure:
  assumes "1 \<le> len" "l \<or> u \<or> d \<or> s" "int (num_enabled l u d s) \<le> len"
  shows "\<exists>pw. generate_password r len l u d s = Inr pw
           \<and> (\<forall>c\<in>set pw. \<exists>cat. enabled l u d s cat \<and> c \<in> set (category_pool cat))
           \<and> (\<forall>cat. \<not> enabled l u d s cat \<longrightarrow> set pw \<inter> set (category_pool cat) = {})"
proof -
  have pos: "0 < len" using assms(1) by simp
  obtain pw where res: "generate_password r len l u d s = Inr pw"
    and sub: "set pw \<subseteq> set (build_character_pool l u d s)"
    using generate_password_result [OF pos assms(2), of r] by blast
  have inside: "\<exists>cat. enabled l u d s cat \<and> c \<in> set (category_pool cat)" if "c \<in> set pw" for c
    using that sub in_pool_category [of c l u d s] by blast
  have outside: "set pw \<inter> set (category_pool cat) = {}" if off: "\<not> enabled l u d s cat" for cat
  proof (rule ccontr)
    assume "set pw \<inter> set (category_pool cat) \<noteq> {}"
    then obtain c where c: "c \<in> set pw" "c \<in> set (category_pool cat)" by blast
    obtain cat' where c': "enabled l u d s cat'" "c \<in> set (category_pool cat')"
      using inside [OF c(1)] by blast
    have "cat \<noteq> cat'" using off c'(1) by blast
    then show False using category_pools_disjoint [of cat cat'] c(2) c'(2) by blast
  qed
  from res inside outside show ?thesis by blast
qed

theorem C4_closure_witness:
  "(1::int) \<le> 6 \<and> int (num_enabled True False True False) \<le> 6
   \<and> (\<exists>pw. generate_password count_tape 6 True False True False = Inr pw
           \<and> (\<forall>c\<in>set pw. \<exists>cat. enabled True False True False cat \<and> c \<in> set (category_pool cat))
           \<and> (\<forall>cat. \<not> enabled True False True False cat \<longrightarrow> set pw \<inter> set (category_pool cat) = {}))"
  using C4_closure [of 6 True False True False count_tape]
  by (simp add: num_enabled_def)



text \<open>
  C10. For every length of at least 1 and every selection with more enabled categories than
  that, \<open>generate_password\<close> raises no error: the working buffer is the result of the
  guarantee step alone, one character per enabled category, the fill loop adds nothing, and
  the password is the shuffled buffer cut to its first \<open>len\<close> characters. It has exactly
  \<open>len\<close> characters and so lacks a character of at least one enabled category.
\<close>

theorem C10_short_length_truncates:
  assumes "1 \<le> len" "len < int (num_enabled l u d s)"
  shows "\<exists>buf r1 pw.
           guarantee_chars r l u d s = Inr (buf, r1)
         \<and> length buf = num_enabled l u d s
         \<and> pw = take (nat len) (fst (shuffle r1 buf))
         \<and> generate_password r len l u d s = Inr pw
         \<and> int (length pw) = len
         \<and> (\<exists>cat. enabled l u d s cat \<and> set pw \<inter> set (category_pool cat) = {})"
proof -
  have pos: "0 < len" using assms(1) by simp
  have "0 < num_enabled l u d s" using assms by linarith
  then have "l \<or> u \<or> d \<or> s" by (rule some_enabled)
  then have ne: "build_character_pool l u d s \<noteq> []" by (simp add: build_pool_empty_iff)
  obtain buf r1 where g: "guarantee_chars r l u d s = Inr (buf, r1)"
    and n: "length buf = num_enabled l u d s"
    using guarantee_chars_props [of r l u d s] by blast
  let ?pw = "take (nat len) (fst (shuffle r1 buf))"
  have full: "\<not> int (length buf) < len" using assms(2) n by simp
  then have "fill_rest (build_character_pool l u d s) len (buf, r1) = Inr (buf, r1)"
    by simp
  then have res: "generate_password r len l u d s = Inr ?pw"
    using pos ne g by (simp add: generate_password_def)
  have size: "int (length ?pw) = len"
    using full pos by (simp add: shuffle_length)
  then have "length ?pw < num_enabled l u d s" using assms(2) by linarith
  then have "\<exists>cat. enabled l u d s cat \<and> set ?pw \<inter> set (category_pool cat) = {}"
    by (rule short_password_misses_category)
  with g n res size show ?thesis by blast
qed

theorem C10_short_length_truncates_witness:
  "(1::int) \<le> 2 \<and> 2 < int (num_enabled True True True False)
   \<and> (\<exists>buf r1 pw.
           guarantee_chars zero_tape True True True False = Inr (buf, r1)
         \<and> length buf = num_enabled True True True False
         \<and> pw = take (nat 2) (fst (shuffle r1 buf))
         \<and> generate_password zero_tape 2 True True True False = Inr pw
         \<and> int (length pw) = 2
         \<and> (\<exists>cat. enabled True True True False cat \<and> set pw \<inter> set (category_pool cat) = {}))"
  using C10_short_length_truncates [of 2 True True True False zero_tape]
  by (simp add: num_enabled_def)

end
